theory Spec2Isabelle
  imports Complex_Main "HOL-Library.Sublist"
begin

section \<open>Python strings\<close>

text \<open>
  A Python \<open>str\<close> is a sequence of Unicode code points and \<open>len\<close> counts code points,
  so a string is modelled as a list of code points. The fixed messages of the program
  contain symbols outside ASCII; they are written as their code points.
\<close>

type_synonym pystr = "nat list"

definition lit :: "string \<Rightarrow> pystr" where
  "lit s = map of_char s"

text \<open>The characters \<open>str.split()\<close> and \<open>str.strip()\<close> treat as whitespace.\<close>

definition is_space :: "nat \<Rightarrow> bool" where
  "is_space c \<longleftrightarrow>
     (9 \<le> c \<and> c \<le> 13) \<or> (28 \<le> c \<and> c \<le> 32) \<or> c = 133 \<or> c = 160 \<or> c = 5760 \<or>
     (8192 \<le> c \<and> c \<le> 8202) \<or> c = 8232 \<or> c = 8233 \<or> c = 8239 \<or> c = 8287 \<or> c = 12288"

text \<open>
  \<open>str.lower()\<close>: the simple case mapping of the code points below 256 (ASCII and
  Latin-1 capitals); code points from 256 on are left as they are in this model.
\<close>

definition lower_cp :: "nat \<Rightarrow> nat" where
  "lower_cp c = (if (65 \<le> c \<and> c \<le> 90) \<or> (192 \<le> c \<and> c \<le> 222 \<and> c \<noteq> 215) then c + 32 else c)"

definition lower :: "pystr \<Rightarrow> pystr" where
  "lower s = map lower_cp s"

definition strip :: "pystr \<Rightarrow> pystr" where
  "strip s = rev (dropWhile is_space (rev (dropWhile is_space s)))"

text \<open>
  \<open>s.split(c)\<close> for a one-character separator: the fields between the separators,
  at least one field, empty fields kept.
\<close>

fun split_when :: "(nat \<Rightarrow> bool) \<Rightarrow> pystr \<Rightarrow> pystr list" where
  "split_when P [] = [[]]"
| "split_when P (c # s) =
     (if P c then [] # split_when P s
      else (case split_when P s of [] \<Rightarrow> [[c]] | w # ws \<Rightarrow> (c # w) # ws))"

definition split_char :: "nat \<Rightarrow> pystr \<Rightarrow> pystr list" where
  "split_char c s = split_when (\<lambda>x. x = c) s"

text \<open>\<open>s.split()\<close>: the maximal runs of non-whitespace characters.\<close>

definition split_ws :: "pystr \<Rightarrow> pystr list" where
  "split_ws s = filter (\<lambda>w. w \<noteq> []) (split_when is_space s)"

text \<open>\<open>sep.join(parts)\<close>.\<close>

fun join :: "pystr \<Rightarrow> pystr list \<Rightarrow> pystr" where
  "join sep [] = []"
| "join sep [p] = p"
| "join sep (p # q # ps) = p @ sep @ join sep (q # ps)"

text \<open>\<open>sub in s\<close>.\<close>

fun contains :: "pystr \<Rightarrow> pystr \<Rightarrow> bool" where
  "contains [] sub = (sub = [])"
| "contains (c # s) sub = (prefix sub (c # s) \<or> contains s sub)"

text \<open>
  \<open>s.count(sub)\<close>: the number of non-overlapping occurrences of \<open>sub\<close>, scanning from
  the left; after a match the scan resumes behind it. The first argument of
  \<open>count_from\<close> is the number of characters still covered by the last match.
\<close>

fun count_from :: "nat \<Rightarrow> pystr \<Rightarrow> pystr \<Rightarrow> nat" where
  "count_from k sub [] = 0"
| "count_from k sub (c # s) =
     (if k = 0 \<and> prefix sub (c # s) then 1 + count_from (length sub - 1) sub s
      else count_from (k - 1) sub s)"

definition count_str :: "pystr \<Rightarrow> pystr \<Rightarrow> nat" where
  "count_str s sub = (if sub = [] then length s + 1 else count_from 0 sub s)"

text \<open>
  The number of positions of \<open>s\<close> at which \<open>w\<close> occurs as a substring (overlapping
  occurrences counted each).
\<close>

fun occurrences :: "pystr \<Rightarrow> pystr \<Rightarrow> nat" where
  "occurrences w [] = (if w = [] then 1 else 0)"
| "occurrences w (c # s) = (if prefix w (c # s) then 1 else 0) + occurrences w s"

section \<open>ContentScorer: \<open>_semantic_match_score\<close>\<close>

text \<open>One round of the loop over the query words: the pair is \<open>(score, matched_words)\<close>.\<close>

definition keyword_step :: "pystr \<Rightarrow> pystr \<Rightarrow> int \<times> int \<Rightarrow> int \<times> int" where
  "keyword_step content_lower word acc =
     (case acc of (score, matched_words) \<Rightarrow>
        let count = int (count_str content_lower word)
        in if count > 0 then (score + min (count * 8) 25, matched_words + 1)
           else (score, matched_words))"

text \<open>
  The source computes \<open>matched_words / len(query_words)\<close> and its product with 30 in
  binary floating point and truncates with \<open>int\<close>; the model computes the same
  expression in exact rational arithmetic.
\<close>

definition score_query_words :: "pystr \<Rightarrow> pystr list" where
  "score_query_words query_lower = [strip w. w \<leftarrow> split_ws query_lower, length (strip w) > 2]"

definition semantic_match_score :: "pystr \<Rightarrow> pystr \<Rightarrow> int" where
  "semantic_match_score content query =
     (if content = [] \<or> query = [] then (if content \<noteq> [] \<and> length content > 200 then 20 else 0)
      else
        let content_lower = lower content;
            query_lower = lower query;
            query_words = score_query_words query_lower
        in if query_words = [] then (if length content > 200 then 20 else 0)
           else
             let (score, matched_words) = fold (keyword_step content_lower) query_words (0, 0);
                 match_ratio = (of_int matched_words :: rat) / of_nat (length query_words);
                 score = score + \<lfloor>match_ratio * 30\<rfloor>;
                 score = (if length content \<ge> 500 then score + 10
                          else if length content \<ge> 200 then score + 5 else score)
             in min score 100)"

section \<open>ResultFormatter: \<open>_clean_content\<close> and \<open>_format_result\<close>\<close>

definition nl :: pystr where
  "nl = [10]"

text \<open>\<open>s.split(c)[0]\<close> and \<open>s.split(c)[-1]\<close> for a one-character separator.\<close>

definition before_char :: "nat \<Rightarrow> pystr \<Rightarrow> pystr" where
  "before_char c s = takeWhile (\<lambda>x. x \<noteq> c) s"

definition after_last :: "nat \<Rightarrow> pystr \<Rightarrow> pystr" where
  "after_last c s = rev (takeWhile (\<lambda>x. x \<noteq> c) (rev s))"

text \<open>\<open>os.path.basename\<close> (POSIX): what follows the last slash.\<close>

definition basename :: "pystr \<Rightarrow> pystr" where
  "basename p = after_last 47 p"

text \<open>
  \<open>s.replace(old, new)\<close> for a non-empty \<open>old\<close>: the non-overlapping occurrences from
  the left are replaced. The first argument of \<open>replace_from\<close> is the number of
  characters still covered by the last occurrence.
\<close>

fun replace_from :: "nat \<Rightarrow> pystr \<Rightarrow> pystr \<Rightarrow> pystr \<Rightarrow> pystr" where
  "replace_from k old new [] = []"
| "replace_from k old new (c # s) =
     (if k = 0 \<and> prefix old (c # s) then new @ replace_from (length old - 1) old new s
      else if k = 0 then c # replace_from 0 old new s
      else replace_from (k - 1) old new s)"

definition replace :: "pystr \<Rightarrow> pystr \<Rightarrow> pystr \<Rightarrow> pystr" where
  "replace s old new = replace_from 0 old new s"

lemma replace_from_length:
  "length new \<le> length old \<Longrightarrow> length (replace_from k old new s) \<le> length s - k"
proof (induction s arbitrary: k)
  case Nil
  then show ?case by simp
next
  case (Cons c s)
  show ?case
  proof (cases "k = 0 \<and> prefix old (c # s)")
    case True
    then have "length old \<le> Suc (length s)" using prefix_length_le by fastforce
    moreover have "length (replace_from (length old - 1) old new s) \<le> length s - (length old - 1)"
      using Cons.IH [OF Cons.prems] .
    ultimately show ?thesis using True Cons.prems by simp
  next
    case False
    then show ?thesis using Cons.IH [OF Cons.prems, of 0] Cons.IH [OF Cons.prems, of "k - 1"]
      by (cases "k = 0") auto
  qed
qed

lemma replace_shrinks:
  "length new < length old \<Longrightarrow> contains s old \<Longrightarrow> length (replace s old new) < length s"
proof (induction s)
  case Nil
  then show ?case by simp
next
  case (Cons c s)
  show ?case
  proof (cases "prefix old (c # s)")
    case True
    then have "length old \<le> Suc (length s)" using prefix_length_le by fastforce
    moreover have "length (replace_from (length old - 1) old new s) \<le> length s - (length old - 1)"
      using replace_from_length [of new old "length old - 1" s] Cons.prems(1) by simp
    ultimately show ?thesis using True Cons.prems(1) by (simp add: replace_def)
  next
    case False
    then have "contains s old" using Cons.prems(2) by simp
    then have "length (replace s old new) < length s" using Cons.IH Cons.prems(1) by simp
    then show ?thesis using False by (simp add: replace_def)
  qed
qed

text \<open>The loop \<open>while '\n\n\n' in result: result = result.replace('\n\n\n', '\n\n')\<close>.\<close>

function squeeze_newlines :: "pystr \<Rightarrow> pystr" where
  "squeeze_newlines result =
     (if contains result [10, 10, 10] then squeeze_newlines (replace result [10, 10, 10] [10, 10])
      else result)"
  by pat_completeness auto
termination
  by (relation "measure length") (auto intro: replace_shrinks)

declare squeeze_newlines.simps [simp del]

definition source_marker :: pystr where
  "source_marker = [128204] @ lit '' Source:''"

text \<open>
  One round of the loop over the lines in \<open>_clean_content\<close>; the state is
  \<open>(cleaned_lines, seen_lines, last_was_empty)\<close>.
\<close>

definition clean_line_step ::
  "pystr \<Rightarrow> pystr list \<times> pystr set \<times> bool \<Rightarrow> pystr list \<times> pystr set \<times> bool" where
  "clean_line_step line acc =
     (case acc of (cleaned_lines, seen_lines, last_was_empty) \<Rightarrow>
        let line_stripped = strip line
        in if prefix source_marker line_stripped then acc
           else if prefix (lit ''==='') line_stripped then acc
           else if line_stripped = [] \<and> last_was_empty then acc
           else
             let last_was_empty = (line_stripped = [])
             in if length line_stripped > 50 then
                  (let key = lower (take 100 line_stripped)
                   in if key \<in> seen_lines then (cleaned_lines, seen_lines, last_was_empty)
                      else (cleaned_lines @ [line], insert key seen_lines, last_was_empty))
                else (cleaned_lines @ [line], seen_lines, last_was_empty))"

definition clean_content :: "pystr \<Rightarrow> pystr" where
  "clean_content content =
     (if content = [] then []
      else
        let lines = split_char 10 content;
            (cleaned_lines, seen_lines, last_was_empty) = fold clean_line_step lines ([], {}, False);
            result = join nl cleaned_lines
        in strip (squeeze_newlines result))"

text \<open>\<open>list(dict.fromkeys(xs))\<close>: the first occurrence of each element, in order.\<close>

fun dedup :: "'a list \<Rightarrow> 'a list" where
  "dedup [] = []"
| "dedup (x # xs) = x # dedup (filter (\<lambda>y. y \<noteq> x) xs)"

section \<open>The environment: network, URL library, PDF library\<close>

text \<open>
  What the PDF library makes of a downloaded file; \<open>None\<close> is a call that raises.
  For strategy 1 a page is given by its reconstructed text (\<open>page_text\<close> in the
  source), or as a page with no positioned element at all: the grouping of the elements
  into rows is floating point arithmetic on the library's coordinates and is not
  modelled. \<open>full_text\<close> is what \<open>extract_text\<close> returns for strategy 2, and
  \<open>glyph_pages\<close> holds for each page the characters strategy 3 collects, joined.
\<close>

datatype s1_page = No_elements | Page_text pystr

record pdf_doc =
  s1_layout :: "s1_page list option"
  full_text :: "pystr option"
  glyph_pages :: "pystr list option"

text \<open>
  An HTTP response as far as the crawler looks at it: whether \<open>raise_for_status\<close>
  passes, the Content-Type header (empty when absent), and what the HTML parser finds in
  the body: the text \<open>_extract_text\<close> returns, the file links (the list the loop over
  \<open>file_links\<close> in \<open>_extract_single_page\<close> runs over), and the \<open>a\<close> tags with an
  \<open>href\<close> as pairs of the raw \<open>href\<close> and the tag's text.
\<close>

record response =
  status_ok :: bool
  content_type :: pystr
  page_text :: pystr
  file_links :: "pystr list"
  anchors :: "(pystr \<times> pystr) list"
  pdf :: pdf_doc

text \<open>
  The network answers a request by its URL, the same way throughout a call: \<open>None\<close> is
  a request that raises (timeout, connection error). \<open>urljoin\<close> and
  \<open>urlparse(...).netloc\<close> are library functions; they and the HTML parser are taken to
  return a result.
\<close>

record env =
  http_get :: "pystr \<Rightarrow> response option"
  urljoin :: "pystr \<Rightarrow> pystr \<Rightarrow> pystr"
  netloc :: "pystr \<Rightarrow> pystr"

section \<open>The extractor's state\<close>

text \<open>
  \<open>visited_urls\<close> and \<open>pdf_links\<close> are the fields of the extractor. The temporary
  files on disk are numbered in the order of their creation. \<open>trace\<close> records the
  requests and the file operations in the order in which they happen.
\<close>

datatype event =
    Page_get pystr
  | Links_get pystr
  | Pdf_get pystr
  | Tmp_create nat
  | Strategy1 nat
  | Strategy2 nat
  | Strategy3 nat
  | Tmp_remove nat

record state =
  visited_urls :: "pystr set"
  pdf_links :: "pystr list"
  tmp_files :: "nat set"
  tmp_counter :: nat
  trace :: "event list"

definition log_event :: "event \<Rightarrow> state \<Rightarrow> state" where
  "log_event e st = st\<lparr>trace := trace st @ [e]\<rparr>"

definition not_found_msg :: "pystr \<Rightarrow> pystr" where
  "not_found_msg url = [10060] @ lit '' Aucun contenu trouv'' @ [233] @ nl @ [128204] @ lit '' URL: '' @ url"

definition format_result :: "state \<Rightarrow> pystr \<Rightarrow> pystr \<Rightarrow> int \<Rightarrow> pystr" where
  "format_result st content url score =
     (if content = [] then not_found_msg url
      else
        let content = clean_content content;
            content = (if length content > 6000
                       then take 6000 content @ nl @ nl @ lit ''[...contenu tronqu'' @ [233] @ lit '']''
                       else content);
            result = content @ nl @ nl @ [128204] @ lit '' Source: '' @ url
        in if pdf_links st \<noteq> [] then
             (let unique_pdfs = take 3 (dedup (pdf_links st))
              in if unique_pdfs \<noteq> [] then
                   result @ nl @ [128206] @ lit '' PDFs: '' @ join (lit '', '') (map basename unique_pdfs)
                 else result)
           else result)"

section \<open>PdfExtractor\<close>

text \<open>\<open>str(n)\<close> for a page number.\<close>

fun show_nat :: "nat \<Rightarrow> pystr" where
  "show_nat n = (if n < 10 then [48 + n] else show_nat (n div 10) @ [48 + n mod 10])"

declare show_nat.simps [simp del]

definition bar :: pystr where
  "bar = replicate 60 61"

definition page_header :: "nat \<Rightarrow> pystr" where
  "page_header page_num = bar @ nl @ [128196] @ lit '' PAGE '' @ show_nat page_num @ nl @ bar @ nl"

definition empty_page :: "nat \<Rightarrow> pystr" where
  "empty_page page_num = page_header page_num @ [9888, 65039] @ lit '' [Page vide ou image]'' @ nl"

text \<open>
  What \<open>_extract_pdf_strategy1\<close> appends to \<open>pages_content\<close> for one page, from the
  page's reconstructed text.
\<close>

definition s1_format_page :: "nat \<Rightarrow> s1_page \<Rightarrow> pystr" where
  "s1_format_page page_num p =
     (case p of
        No_elements \<Rightarrow> empty_page page_num
      | Page_text t \<Rightarrow>
          if length (strip t) > 10 then page_header page_num @ t @ nl else empty_page page_num)"

definition extract_pdf_strategy1 :: "pdf_doc \<Rightarrow> pystr list option" where
  "extract_pdf_strategy1 doc =
     (case s1_layout doc of
        None \<Rightarrow> None
      | Some pages \<Rightarrow> Some (map (\<lambda>(page_num, p). s1_format_page page_num p) (enumerate 1 pages)))"

text \<open>
  \<open>_clean_pdf_text\<close>: the control characters but tab, newline and carriage return are
  removed, every run of spaces and tabs becomes one space, every run of three or more
  newlines becomes two, every line is stripped and so is the whole text. The flag of
  \<open>squeeze_blanks\<close> says that the character before was a space or a tab; the counter
  of \<open>squeeze_blank_lines\<close> is the number of newlines just before.
\<close>

definition is_control :: "nat \<Rightarrow> bool" where
  "is_control c \<longleftrightarrow> c \<le> 8 \<or> c = 11 \<or> c = 12 \<or> (14 \<le> c \<and> c \<le> 31) \<or> c = 127"

fun squeeze_blanks :: "bool \<Rightarrow> pystr \<Rightarrow> pystr" where
  "squeeze_blanks prev [] = []"
| "squeeze_blanks prev (c # s) =
     (if c = 32 \<or> c = 9 then (if prev then squeeze_blanks True s else 32 # squeeze_blanks True s)
      else c # squeeze_blanks False s)"

fun squeeze_blank_lines :: "nat \<Rightarrow> pystr \<Rightarrow> pystr" where
  "squeeze_blank_lines k [] = []"
| "squeeze_blank_lines k (c # s) =
     (if c = 10 then (if 2 \<le> k then squeeze_blank_lines k s else 10 # squeeze_blank_lines (Suc k) s)
      else c # squeeze_blank_lines 0 s)"

definition clean_pdf_text :: "pystr \<Rightarrow> pystr" where
  "clean_pdf_text text =
     (let text = filter (\<lambda>c. \<not> is_control c) text;
          text = squeeze_blanks False text;
          text = squeeze_blank_lines 0 text;
          lines = map strip (split_char 10 text);
          text = join nl lines
      in strip text)"

text \<open>\<open>[xs[i:i+n] for i in range(0, len(xs), n)]\<close> for a positive \<open>n\<close>.\<close>

function chunks :: "nat \<Rightarrow> 'a list \<Rightarrow> 'a list list" where
  "chunks n xs = (if n = 0 \<or> xs = [] then [] else take n xs # chunks n (drop n xs))"
  by pat_completeness auto
termination
  by (relation "measure (\<lambda>(n, xs). length xs)") auto

declare chunks.simps [simp del]

text \<open>
  \<open>_extract_pdf_strategy2\<close>: it catches every exception itself and returns the empty
  list then.
\<close>

definition extract_pdf_strategy2 :: "pdf_doc \<Rightarrow> pystr list" where
  "extract_pdf_strategy2 doc =
     (case full_text doc of
        None \<Rightarrow> []
      | Some text \<Rightarrow>
          if text = [] \<or> length (strip text) < 20 then []
          else
            let clean_text = clean_pdf_text text;
                pages = split_char 12 clean_text;
                pages = (if length pages = 1
                         then (let lines = split_char 10 clean_text;
                                   chunk_size = max 50 (length lines div 3)
                               in map (join nl) (chunks chunk_size lines))
                         else pages)
            in [page_header i @ strip page @ nl. (i, page) \<leftarrow> enumerate 1 pages, strip page \<noteq> []])"

definition extract_pdf_strategy3 :: "pdf_doc \<Rightarrow> pystr list option" where
  "extract_pdf_strategy3 doc =
     (case glyph_pages doc of
        None \<Rightarrow> None
      | Some pages \<Rightarrow>
          Some [page_header page_num @ clean_pdf_text text @ nl.
                (page_num, text) \<leftarrow> enumerate 1 pages, length (strip text) > 10])"

text \<open>\<open>sum(len(p) for p in pages_content)\<close>.\<close>

definition total_chars :: "pystr list \<Rightarrow> nat" where
  "total_chars pages_content = sum_list (map length pages_content)"

text \<open>
  The three strategies in their fallback order, on the temporary file \<open>tmp_path\<close>.
  \<open>None\<close> is an exception of strategy 1 or 3, which leaves the \<open>try\<close> block.
\<close>

definition run_strategies :: "pdf_doc \<Rightarrow> nat \<Rightarrow> state \<Rightarrow> pystr list option \<times> state" where
  "run_strategies doc tmp_path st =
     (let st = log_event (Strategy1 tmp_path) st
      in case extract_pdf_strategy1 doc of
           None \<Rightarrow> (None, st)
         | Some pages_content \<Rightarrow>
             let (pages_content, st) =
                   (if total_chars pages_content < 200
                    then (extract_pdf_strategy2 doc, log_event (Strategy2 tmp_path) st)
                    else (pages_content, st))
             in if total_chars pages_content < 200 then
                  (let st = log_event (Strategy3 tmp_path) st
                   in case extract_pdf_strategy3 doc of
                        None \<Rightarrow> (None, st)
                      | Some pages_content \<Rightarrow> (Some pages_content, st))
                else (Some pages_content, st))"

definition pdf_failed_msg :: "pystr \<Rightarrow> pystr" where
  "pdf_failed_msg url =
     [10060] @ lit '' [PDF d'' @ [233] @ lit ''tect'' @ [233] @ lit '' mais extraction impossible : ''
     @ basename url @ lit '']'' @ nl @ [128206] @ lit '' Lien direct: '' @ url"

definition pdf_unextractable_msg :: "pystr \<Rightarrow> pystr" where
  "pdf_unextractable_msg url =
     [10060] @ lit '' [PDF d'' @ [233] @ lit ''tect'' @ [233] @ lit '' mais contenu non extractible (peut-''
     @ [234] @ lit ''tre scann'' @ [233] @ lit ''/image) : '' @ basename url @ lit '']'' @ nl
     @ [128206] @ lit '' Lien direct: '' @ url"

definition pdf_document :: "pystr \<Rightarrow> pystr list \<Rightarrow> pystr" where
  "pdf_document url pages_content =
     (let total_pages = length pages_content
      in [128214] @ lit '' DOCUMENT PDF : '' @ basename url @ nl
         @ [128202] @ lit '' Nombre de pages : '' @ show_nat total_pages @ nl
         @ [128206] @ lit '' Lien direct: '' @ url @ nl @ nl
         @ join (nl @ nl) pages_content
         @ nl @ nl @ bar @ nl
         @ [9989] @ lit '' FIN DU DOCUMENT ('' @ show_nat total_pages @ lit '' pages)'' @ nl
         @ bar @ nl)"

definition extract_pdf_from_url_advanced :: "env \<Rightarrow> pystr \<Rightarrow> state \<Rightarrow> pystr \<times> state" where
  "extract_pdf_from_url_advanced e url st =
     (let st = log_event (Pdf_get url) st
      in case http_get e url of
           None \<Rightarrow> (pdf_failed_msg url, st)
         | Some resp \<Rightarrow>
             if \<not> status_ok resp then (pdf_failed_msg url, st)
             else
               let ctype = lower (content_type resp)
               in if \<not> contains ctype (lit ''pdf'') \<and> \<not> suffix (lit ''.pdf'') (lower url) then
                    ([10060] @ lit '' [Le lien ne pointe pas vers un PDF: '' @ ctype @ lit '']'', st)
                  else
                    let tmp_path = tmp_counter st;
                        st = st\<lparr>tmp_files := insert tmp_path (tmp_files st),
                                tmp_counter := Suc tmp_path\<rparr>;
                        st = log_event (Tmp_create tmp_path) st
                    in case run_strategies (pdf resp) tmp_path st of
                         (None, st) \<Rightarrow> (pdf_failed_msg url, st)
                       | (Some pages_content, st) \<Rightarrow>
                           let st = st\<lparr>tmp_files := tmp_files st - {tmp_path}\<rparr>;
                               st = log_event (Tmp_remove tmp_path) st
                           in if pages_content = [] \<or> list_all (\<lambda>p. length (strip p) < 20) pages_content
                              then (pdf_unextractable_msg url, st)
                              else (pdf_document url pages_content, st))"

section \<open>PageFetcher and HtmlTextExtractor: \<open>_extract_single_page\<close>\<close>

text \<open>
  One round of the loop over \<open>file_links\<close>; the state is
  \<open>(pdf_contents, pdf_extracted_count, st)\<close>.
\<close>

definition file_link_step ::
  "env \<Rightarrow> bool \<Rightarrow> pystr \<Rightarrow> pystr list \<times> nat \<times> state \<Rightarrow> pystr list \<times> nat \<times> state" where
  "file_link_step e extract_pdf_content link acc =
     (case acc of (pdf_contents, pdf_extracted_count, st) \<Rightarrow>
        if suffix (lit ''.pdf'') (lower link) \<and> link \<notin> set (pdf_links st) then
          (let st = st\<lparr>pdf_links := pdf_links st @ [link]\<rparr>
           in if extract_pdf_content \<and> pdf_extracted_count < 3 then
                (let (pdf_content, st) = extract_pdf_from_url_advanced e link st
                 in if pdf_content \<noteq> [] \<and> \<not> contains pdf_content [10060] \<and> length pdf_content > 100
                    then (pdf_contents @ [pdf_content], pdf_extracted_count + 1, st)
                    else (pdf_contents, pdf_extracted_count, st))
              else (pdf_contents, pdf_extracted_count, st))
        else acc)"

text \<open>The branch for a response that is a PDF (``cas PDF direct'').\<close>

definition pdf_page :: "env \<Rightarrow> pystr \<Rightarrow> bool \<Rightarrow> state \<Rightarrow> pystr \<times> state" where
  "pdf_page e url extract_pdf_content st =
     (let st = (if url \<notin> set (pdf_links st) then st\<lparr>pdf_links := pdf_links st @ [url]\<rparr> else st)
      in if extract_pdf_content then extract_pdf_from_url_advanced e url st
         else (lit ''[PDF d'' @ [233] @ lit ''tect'' @ [233] @ lit '' : '' @ basename url @ lit '']'', st))"

text \<open>The branch for an HTML response (``cas HTML'').\<close>

definition html_page :: "env \<Rightarrow> response \<Rightarrow> bool \<Rightarrow> state \<Rightarrow> pystr \<times> state" where
  "html_page e resp extract_pdf_content st =
     (let text = page_text resp;
          (pdf_contents, pdf_extracted_count, st) =
             fold (file_link_step e extract_pdf_content) (file_links resp) ([], 0, st)
      in if pdf_contents \<noteq> [] then
           (text @ nl @ nl @ bar @ nl
            @ [128196] @ lit '' CONTENU DES PDFs EXTRAITS'' @ nl
            @ bar @ nl @ nl
            @ join (nl @ nl) pdf_contents, st)
         else if extract_pdf_content \<and> pdf_links st \<noteq> [] then
           (text @ nl @ nl @ bar @ nl
            @ [128206] @ lit '' LIENS PDF DISPONIBLES (contenu non extrait)'' @ nl
            @ bar @ nl
            @ concat (map (\<lambda>pdf_link. [128206, 32] @ pdf_link @ nl) (pdf_links st)), st)
         else (text, st))"

definition extract_single_page :: "env \<Rightarrow> pystr \<Rightarrow> bool \<Rightarrow> state \<Rightarrow> pystr \<times> state" where
  "extract_single_page e url extract_pdf_content st =
     (if url \<in> visited_urls st then ([], st)
      else
        let st = st\<lparr>visited_urls := insert url (visited_urls st)\<rparr>;
            st = log_event (Page_get url) st
        in case http_get e url of
             None \<Rightarrow> ([], st)
           | Some resp \<Rightarrow>
               if \<not> status_ok resp then ([], st)
               else if contains (lower (content_type resp)) (lit ''pdf'') \<or> suffix (lit ''.pdf'') (lower url)
               then pdf_page e url extract_pdf_content st
               else html_page e resp extract_pdf_content st)"

section \<open>LinkScorer: \<open>_get_scored_internal_links\<close>\<close>

definition link_query_words :: "pystr \<Rightarrow> pystr list" where
  "link_query_words query = [lower w. w \<leftarrow> split_ws query, length w > 2]"

definition excluded_terms :: "pystr list" where
  "excluded_terms = [lit ''login'', lit ''contact'', lit ''privacy'', lit ''cookie'', lit ''footer'']"

definition important_words :: "pystr list" where
  "important_words = [lit ''programme'', lit ''stage'', lit ''internship'', lit ''procedure'',
                      lit ''list'', lit ''all'', lit ''nos-'']"

text \<open>\<open>url_lower.split('/')[-1] if '/' in url_lower else url_lower\<close>.\<close>

definition url_path_of :: "pystr \<Rightarrow> pystr" where
  "url_path_of url_lower = (if contains url_lower [47] then after_last 47 url_lower else url_lower)"

text \<open>What one query word adds to a link's score.\<close>

definition word_points :: "pystr \<Rightarrow> pystr \<Rightarrow> pystr \<Rightarrow> int" where
  "word_points combined url_path word =
     (if contains combined word then 30 else 0) + (if contains url_path word then 20 else 0)"

definition important_points :: "pystr \<Rightarrow> int" where
  "important_points combined = sum_list (map (\<lambda>iw. if contains combined iw then 10 else 0) important_words)"

text \<open>
  The score of a link from its text (stripped and lowercased) and its cleaned,
  lowercased URL.
\<close>

definition link_score :: "pystr list \<Rightarrow> pystr \<Rightarrow> pystr \<Rightarrow> int" where
  "link_score query_words link_text url_lower =
     (let url_path = url_path_of url_lower;
          combined = link_text @ [32] @ url_path
      in sum_list (map (word_points combined url_path) query_words) + important_points combined)"

text \<open>
  One round of the loop over the \<open>a\<close> tags; the state is \<open>(scored_links, seen_urls)\<close>.
\<close>

definition anchor_step ::
  "env \<Rightarrow> pystr \<Rightarrow> pystr list \<Rightarrow> pystr \<times> pystr \<Rightarrow> (pystr \<times> int) list \<times> pystr set
   \<Rightarrow> (pystr \<times> int) list \<times> pystr set" where
  "anchor_step e base_url query_words link acc =
     (case acc of (scored_links, seen_urls) \<Rightarrow>
        let href = strip (fst link)
        in if prefix (lit ''#'') href \<or> prefix (lit ''mailto:'') href \<or> prefix (lit ''javascript:'') href
           then acc
           else
             let full_url = urljoin e base_url href
             in if netloc e full_url \<noteq> netloc e base_url then acc
                else
                  let clean_url = before_char 63 (before_char 35 full_url)
                  in if clean_url \<in> seen_urls \<or> clean_url = base_url then acc
                     else
                       let seen_urls = insert clean_url seen_urls;
                           url_lower = lower clean_url
                       in if list_ex (\<lambda>x. contains url_lower x) excluded_terms
                          then (scored_links, seen_urls)
                          else
                            let link_text = lower (strip (snd link));
                                score = link_score query_words link_text url_lower
                            in if score > 0 then (scored_links @ [(clean_url, score)], seen_urls)
                               else (scored_links, seen_urls))"

text \<open>
  \<open>scored_links.sort(key=lambda x: x[1], reverse=True)\<close>: descending by score, links
  of equal score in their order of discovery.
\<close>

definition sort_by_score :: "(pystr \<times> int) list \<Rightarrow> (pystr \<times> int) list" where
  "sort_by_score scored_links = sort_key (\<lambda>x. - snd x) scored_links"

definition get_scored_internal_links ::
  "env \<Rightarrow> pystr \<Rightarrow> pystr \<Rightarrow> state \<Rightarrow> (pystr \<times> int) list \<times> state" where
  "get_scored_internal_links e base_url query st =
     (let st = log_event (Links_get base_url) st
      in case http_get e base_url of
           None \<Rightarrow> ([], st)
         | Some resp \<Rightarrow>
             if \<not> status_ok resp then ([], st)
             else
               let query_words = link_query_words query;
                   (scored_links, seen_urls) =
                      fold (anchor_step e base_url query_words) (anchors resp) ([], {})
               in (sort_by_score scored_links, st))"

section \<open>CrawlController: \<open>extract_site_content\<close>\<close>

text \<open>\<open>" ".join(priority_keywords) if priority_keywords else ""\<close>.\<close>

definition search_query_of :: "pystr list option \<Rightarrow> pystr" where
  "search_query_of priority_keywords =
     (case priority_keywords of None \<Rightarrow> [] | Some ks \<Rightarrow> if ks = [] then [] else join [32] ks)"

text \<open>\<open>xs[:n]\<close>: a negative \<open>n\<close> counts from the end.\<close>

definition slice_to :: "int \<Rightarrow> 'a list \<Rightarrow> 'a list" where
  "slice_to n xs = (if 0 \<le> n then take (nat n) xs else take (length xs - nat (- n)) xs)"

record crawl_vars =
  best_content :: pystr
  best_score :: int
  best_url :: pystr
  pages_explored :: nat

text \<open>
  One round of the exploration loop either goes on to the next link (\<open>continue\<close> or the
  end of the body) or leaves the loop with the string the call returns (the \<open>return\<close>
  inside the loop, or \<open>break\<close> followed by the \<open>return\<close> behind the loop).
\<close>

datatype loop_ctl = Continue crawl_vars state | Leave pystr state

definition explore_step ::
  "env \<Rightarrow> bool \<Rightarrow> pystr \<Rightarrow> pystr \<times> int \<Rightarrow> crawl_vars \<Rightarrow> state \<Rightarrow> loop_ctl" where
  "explore_step e extract_pdf_content search_query link v st =
     (case link of (page_url, title_score) \<Rightarrow>
        if page_url \<in> visited_urls st then Continue v st
        else
          let v = v\<lparr>pages_explored := pages_explored v + 1\<rparr>;
              (page_content, st) = extract_single_page e page_url extract_pdf_content st
          in if page_content = [] then Continue v st
             else
               let content_score = semantic_match_score page_content search_query;
                   total_score = (title_score + content_score) div 2;
                   v = (if total_score > best_score v
                        then v\<lparr>best_content := page_content, best_score := total_score,
                               best_url := page_url\<rparr>
                        else v)
               in if total_score \<ge> 70 then
                    Leave (format_result st (best_content v) (best_url v) (best_score v)) st
                  else if best_score v \<ge> 50 \<and> pages_explored v \<ge> 4 then
                    Leave (format_result st (best_content v) (best_url v) (best_score v)) st
                  else Continue v st)"

fun explore ::
  "env \<Rightarrow> bool \<Rightarrow> pystr \<Rightarrow> (pystr \<times> int) list \<Rightarrow> crawl_vars \<Rightarrow> state \<Rightarrow> pystr \<times> state" where
  "explore e extract_pdf_content search_query [] v st =
     (format_result st (best_content v) (best_url v) (best_score v), st)"
| "explore e extract_pdf_content search_query (link # links) v st =
     (case explore_step e extract_pdf_content search_query link v st of
        Continue v' st' \<Rightarrow> explore e extract_pdf_content search_query links v' st'
      | Leave result st' \<Rightarrow> (result, st'))"

text \<open>
  The variables and the state with which the loop reaches the end of a list of links,
  if it goes through all of them without leaving.
\<close>

fun explore_through ::
  "env \<Rightarrow> bool \<Rightarrow> pystr \<Rightarrow> (pystr \<times> int) list \<Rightarrow> crawl_vars \<Rightarrow> state
   \<Rightarrow> (crawl_vars \<times> state) option" where
  "explore_through e extract_pdf_content search_query [] v st = Some (v, st)"
| "explore_through e extract_pdf_content search_query (link # links) v st =
     (case explore_step e extract_pdf_content search_query link v st of
        Continue v' st' \<Rightarrow> explore_through e extract_pdf_content search_query links v' st'
      | Leave result st' \<Rightarrow> None)"

definition start_vars :: "pystr \<Rightarrow> pystr \<Rightarrow> pystr \<Rightarrow> crawl_vars" where
  "start_vars main_content search_query url =
     \<lparr>best_content = main_content,
      best_score = (if main_content \<noteq> [] then semantic_match_score main_content search_query else 0),
      best_url = url,
      pages_explored = 1\<rparr>"

definition extract_site_content ::
  "env \<Rightarrow> pystr \<Rightarrow> int \<Rightarrow> bool \<Rightarrow> bool \<Rightarrow> pystr list option \<Rightarrow> state \<Rightarrow> pystr \<times> state" where
  "extract_site_content e url max_pages deep_crawl extract_pdf_content priority_keywords st =
     (let st = st\<lparr>visited_urls := {}, pdf_links := []\<rparr>;
          search_query = search_query_of priority_keywords;
          (main_content, st) = extract_single_page e url extract_pdf_content st
      in if main_content \<noteq> [] \<and> semantic_match_score main_content search_query \<ge> 60 then
           (format_result st main_content url (semantic_match_score main_content search_query), st)
         else if \<not> deep_crawl then (format_result st main_content url 0, st)
         else
           let (internal_links, st) = get_scored_internal_links e url search_query st
           in if internal_links = [] then (format_result st main_content url 0, st)
              else explore e extract_pdf_content search_query (slice_to max_pages internal_links)
                     (start_vars main_content search_query url) st)"

text \<open>The URLs requested over the network, in order, and those requested by each step.\<close>

fun requested_urls :: "event list \<Rightarrow> pystr list" where
  "requested_urls [] = []"
| "requested_urls (Page_get u # evs) = u # requested_urls evs"
| "requested_urls (Links_get u # evs) = u # requested_urls evs"
| "requested_urls (Pdf_get u # evs) = u # requested_urls evs"
| "requested_urls (ev # evs) = requested_urls evs"

fun page_requests :: "event list \<Rightarrow> pystr list" where
  "page_requests [] = []"
| "page_requests (Page_get u # evs) = u # page_requests evs"
| "page_requests (ev # evs) = page_requests evs"

fun links_requests :: "event list \<Rightarrow> pystr list" where
  "links_requests [] = []"
| "links_requests (Links_get u # evs) = u # links_requests evs"
| "links_requests (ev # evs) = links_requests evs"

text \<open>
  A step keeps the page requests when it leaves the visited set, the page requests and
  the link discovery requests as they are.
\<close>

definition keeps :: "state \<Rightarrow> state \<Rightarrow> bool" where
  "keeps st st' \<longleftrightarrow>
     visited_urls st' = visited_urls st
     \<and> page_requests (trace st') = page_requests (trace st)
     \<and> links_requests (trace st') = links_requests (trace st)"

section \<open>Invariant of a crawl\<close>

text \<open>
  The invariant of the page requests of one call: no URL was requested twice by
  \<open>_extract_single_page\<close>, and every URL it requested is in the visited set.
  \<open>ctl_state\<close> is the state in which one round of the exploration loop ends.
\<close>

definition crawl_inv :: "state \<Rightarrow> bool" where
  "crawl_inv st \<longleftrightarrow>
     distinct (page_requests (trace st)) \<and> set (page_requests (trace st)) \<subseteq> visited_urls st"

fun ctl_state :: "loop_ctl \<Rightarrow> state" where
  "ctl_state (Continue v st) = st"
| "ctl_state (Leave r st) = st"

section \<open>An example site\<close>

text \<open>
  A small site on which the definitions are evaluated: a home page with three links, one
  page whose text has 600 characters with five times ``Mitacs'' and twice ``stage'', a
  link that cannot be reached, a PDF of three pages on which strategy 1 reconstructs 50,
  80 and 5 characters, and a file the PDF library cannot read.
\<close>

definition demo_text :: pystr where
  "demo_text = lit ''Mitacs Mitacs Mitacs Mitacs Mitacs stage stage '' @ replicate 553 120"

definition no_pdf :: pdf_doc where
  "no_pdf = \<lparr>s1_layout = Some [], full_text = Some [], glyph_pages = Some []\<rparr>"

definition html_response :: "pystr \<Rightarrow> (pystr \<times> pystr) list \<Rightarrow> response" where
  "html_response text links =
     \<lparr>status_ok = True, content_type = lit ''text/html; charset=utf-8'', page_text = text,
      file_links = [], anchors = links, pdf = no_pdf\<rparr>"

definition pdf_response :: "pdf_doc \<Rightarrow> response" where
  "pdf_response doc =
     \<lparr>status_ok = True, content_type = lit ''application/pdf'', page_text = [],
      file_links = [], anchors = [], pdf = doc\<rparr>"

definition three_pages :: pdf_doc where
  "three_pages =
     \<lparr>s1_layout = Some [Page_text (replicate 50 97), Page_text (replicate 80 97),
                        Page_text (replicate 5 97)],
      full_text = Some (replicate 139 97), glyph_pages = Some (replicate 3 (replicate 45 97))\<rparr>"

definition broken_pdf :: pdf_doc where
  "broken_pdf = \<lparr>s1_layout = None, full_text = None, glyph_pages = None\<rparr>"

definition home_url :: pystr where
  "home_url = lit ''http://h/''"

definition stage_url :: pystr where
  "stage_url = lit ''http://h/stage-mitacs''"

definition list_url :: pystr where
  "list_url = lit ''http://h/stage-mitacs-list''"

definition plan_url :: pystr where
  "plan_url = lit ''http://h/plan.pdf''"

definition broken_url :: pystr where
  "broken_url = lit ''http://h/broken.pdf''"

definition example_site :: "pystr \<Rightarrow> response option" where
  "example_site url =
     (if url = home_url then
        Some (html_response (lit ''Bienvenue'')
                [(lit ''/stage-mitacs'', lit ''Stage Mitacs''),
                 (lit ''/stage-mitacs-list'', lit ''Stage Mitacs list''),
                 (lit ''/contact'', lit ''Contact'')])
      else if url = stage_url then Some (html_response demo_text [])
      else if url = plan_url then Some (pdf_response three_pages)
      else if url = broken_url then Some (pdf_response broken_pdf)
      else None)"

definition example_env :: env where
  "example_env =
     \<lparr>http_get = example_site,
      urljoin = (\<lambda>base href. if prefix (lit ''/'') href then lit ''http://h'' @ href else href),
      netloc = (\<lambda>url. before_char 47 (drop 7 url))\<rparr>"

definition fresh_state :: state where
  "fresh_state = \<lparr>visited_urls = {}, pdf_links = [], tmp_files = {}, tmp_counter = 0, trace = []\<rparr>"

definition stage_query :: "pystr list option" where
  "stage_query = Some [lit ''stage'', lit ''mitacs'']"

text \<open>The states the example crawl from \<open>home_url\<close> goes through.\<close>

definition crawl_state1 :: state where
  "crawl_state1 =
     \<lparr>visited_urls = {home_url}, pdf_links = [], tmp_files = {}, tmp_counter = 0,
      trace = [Page_get home_url]\<rparr>"

definition crawl_state2 :: state where
  "crawl_state2 =
     \<lparr>visited_urls = {home_url}, pdf_links = [], tmp_files = {}, tmp_counter = 0,
      trace = [Page_get home_url, Links_get home_url]\<rparr>"

definition crawl_state3 :: state where
  "crawl_state3 =
     \<lparr>visited_urls = {list_url, home_url}, pdf_links = [], tmp_files = {}, tmp_counter = 0,
      trace = [Page_get home_url, Links_get home_url, Page_get list_url]\<rparr>"

definition crawl_state4 :: state where
  "crawl_state4 =
     \<lparr>visited_urls = {stage_url, list_url, home_url}, pdf_links = [], tmp_files = {}, tmp_counter = 0,
      trace = [Page_get home_url, Links_get home_url, Page_get list_url, Page_get stage_url]\<rparr>"

definition plan_pages :: "pystr list" where
  "plan_pages = [page_header 1 @ replicate 50 97 @ nl, page_header 2 @ replicate 80 97 @ nl, empty_page 3]"

definition direct_state :: state where
  "direct_state =
     \<lparr>visited_urls = {stage_url}, pdf_links = [], tmp_files = {}, tmp_counter = 0,
      trace = [Page_get stage_url]\<rparr>"

section \<open>Auxiliary facts\<close>

subsection \<open>The content score\<close>

lemma keyword_fold_nonneg:
  "0 \<le> fst acc \<Longrightarrow> 0 \<le> snd acc \<Longrightarrow>
   0 \<le> fst (fold (keyword_step cl) ws acc) \<and> 0 \<le> snd (fold (keyword_step cl) ws acc)"
proof (induction ws arbitrary: acc)
  case Nil
  then show ?case by simp
next
  case (Cons w ws)
  have "0 \<le> fst (keyword_step cl w acc)" "0 \<le> snd (keyword_step cl w acc)"
    using Cons.prems by (auto simp: keyword_step_def Let_def split: prod.splits)
  then show ?case using Cons.IH by simp
qed

subsection \<open>Requests and the visited set\<close>

lemma page_requests_append: "page_requests (xs @ ys) = page_requests xs @ page_requests ys"
  by (induction xs rule: page_requests.induct) simp_all

lemma links_requests_append: "links_requests (xs @ ys) = links_requests xs @ links_requests ys"
  by (induction xs rule: links_requests.induct) simp_all

lemma keeps_refl: "keeps st st"
  by (simp add: keeps_def)

lemma keeps_trans: "keeps a b \<Longrightarrow> keeps b c \<Longrightarrow> keeps a c"
  by (simp add: keeps_def)

lemma run_strategies_keeps: "keeps st (snd (run_strategies doc tmp st))"
  by (simp add: keeps_def run_strategies_def log_event_def Let_def page_requests_append links_requests_append
      split: option.split prod.split)

lemma extract_pdf_keeps: "keeps st (snd (extract_pdf_from_url_advanced e url st))"
proof -
  let ?st0 = "log_event (Pdf_get url) st"
  let ?st1 = "log_event (Tmp_create (tmp_counter ?st0))
       (?st0\<lparr>tmp_files := insert (tmp_counter ?st0) (tmp_files ?st0), tmp_counter := Suc (tmp_counter ?st0)\<rparr>)"
  have k0: "keeps st ?st0"
    by (simp add: keeps_def log_event_def page_requests_append links_requests_append)
  have k1: "keeps st ?st1"
    by (simp add: keeps_def log_event_def page_requests_append links_requests_append)
  have k2: "keeps st (snd (run_strategies d (tmp_counter ?st0) ?st1))" for d
    using keeps_trans [OF k1 run_strategies_keeps] .
  have k3: "run_strategies d (tmp_counter ?st0) ?st1 = (r, s) \<Longrightarrow>
      keeps st (log_event (Tmp_remove t) (s\<lparr>tmp_files := tmp_files s - {t}\<rparr>))" for d r s t
    using k2 [of d] by (simp add: keeps_def log_event_def page_requests_append links_requests_append)
  have k4: "run_strategies d (tmp_counter ?st0) ?st1 = (r, s) \<Longrightarrow> keeps st s" for d r s
    using k2 [of d] by simp
  show ?thesis
    unfolding extract_pdf_from_url_advanced_def Let_def
    using k0 k3 k4 by (simp split: option.split prod.split)
qed

lemma file_link_step_keeps:
  "keeps (snd (snd acc)) (snd (snd (file_link_step e x link acc)))"
proof -
  obtain a b st where acc: "acc = (a, b, st)" by (cases acc) auto
  have k: "keeps st (st\<lparr>pdf_links := pdf_links st @ [link]\<rparr>)" by (simp add: keeps_def)
  have k2: "extract_pdf_from_url_advanced e link (st\<lparr>pdf_links := pdf_links st @ [link]\<rparr>) = (r, s)
      \<Longrightarrow> keeps st s" for r s
    using keeps_trans [OF k extract_pdf_keeps [of _ e link]] by simp
  show ?thesis
    unfolding acc file_link_step_def Let_def
    using k k2 keeps_refl by (simp split: prod.split)
qed

lemma file_links_fold_keeps:
  "keeps (snd (snd acc)) (snd (snd (fold (file_link_step e x) links acc)))"
proof (induction links arbitrary: acc)
  case Nil
  show ?case by (simp add: keeps_refl)
next
  case (Cons l ls)
  show ?case using keeps_trans [OF file_link_step_keeps Cons.IH] by simp
qed

lemma pdf_page_keeps: "keeps st (snd (pdf_page e url x st))"
proof -
  have k: "keeps st (st\<lparr>pdf_links := pdf_links st @ [url]\<rparr>)" by (simp add: keeps_def)
  have k2: "keeps st (snd (extract_pdf_from_url_advanced e url (st\<lparr>pdf_links := pdf_links st @ [url]\<rparr>)))"
    using keeps_trans [OF k extract_pdf_keeps] .
  show ?thesis
    unfolding pdf_page_def Let_def
    using k k2 extract_pdf_keeps [of st e url] keeps_refl [of st] by simp
qed

lemma html_page_keeps: "keeps st (snd (html_page e resp x st))"
proof -
  obtain a b s where f: "fold (file_link_step e x) (file_links resp) ([], 0, st) = (a, b, s)"
    by (cases "fold (file_link_step e x) (file_links resp) ([], 0, st)") auto
  have "keeps st s"
    using file_links_fold_keeps [of "([], 0, st)" e x "file_links resp"] f by simp
  then show ?thesis
    unfolding html_page_def Let_def f by simp
qed

lemma extract_single_page_visited:
  assumes "url \<in> visited_urls st"
  shows "extract_single_page e url x st = ([], st)"
  using assms by (simp add: extract_single_page_def)

lemma extract_single_page_new:
  assumes "url \<notin> visited_urls st"
  shows "visited_urls (snd (extract_single_page e url x st)) = insert url (visited_urls st)
     \<and> page_requests (trace (snd (extract_single_page e url x st))) = page_requests (trace st) @ [url]
     \<and> links_requests (trace (snd (extract_single_page e url x st))) = links_requests (trace st)"
proof -
  define st0 where "st0 = log_event (Page_get url) (st\<lparr>visited_urls := insert url (visited_urls st)\<rparr>)"
  have p0: "visited_urls st0 = insert url (visited_urls st)
     \<and> page_requests (trace st0) = page_requests (trace st) @ [url]
     \<and> links_requests (trace st0) = links_requests (trace st)"
    by (simp add: st0_def log_event_def page_requests_append links_requests_append)
  have "keeps st0 (snd (extract_single_page e url x st))"
    unfolding extract_single_page_def Let_def st0_def [symmetric]
    using assms by (simp add: keeps_refl pdf_page_keeps html_page_keeps split: option.split)
  then show ?thesis using p0 by (simp add: keeps_def)
qed

lemma extract_single_page_inv:
  assumes "crawl_inv st"
  shows "crawl_inv (snd (extract_single_page e url x st))
     \<and> links_requests (trace (snd (extract_single_page e url x st))) = links_requests (trace st)"
proof (cases "url \<in> visited_urls st")
  case True
  then show ?thesis using assms by (simp add: extract_single_page_visited)
next
  case False
  from extract_single_page_new [OF False, of e x] assms False
  show ?thesis by (auto simp: crawl_inv_def)
qed

lemma get_scored_internal_links_state:
  "snd (get_scored_internal_links e url q st) = log_event (Links_get url) st"
  by (simp add: get_scored_internal_links_def Let_def split: option.split prod.split)

lemma explore_step_inv:
  assumes "crawl_inv st"
  shows "crawl_inv (ctl_state (explore_step e x q link v st))
     \<and> links_requests (trace (ctl_state (explore_step e x q link v st))) = links_requests (trace st)"
proof -
  obtain page_url title_score where link: "link = (page_url, title_score)" by (cases link)
  obtain c st' where ex: "extract_single_page e page_url x st = (c, st')"
    by (cases "extract_single_page e page_url x st")
  have "crawl_inv st' \<and> links_requests (trace st') = links_requests (trace st)"
    using extract_single_page_inv [OF assms, of e page_url x] ex by simp
  then show ?thesis
    unfolding link explore_step_def Let_def using assms ex by simp
qed

lemma explore_inv:
  assumes "crawl_inv st"
  shows "crawl_inv (snd (explore e x q links v st))
     \<and> links_requests (trace (snd (explore e x q links v st))) = links_requests (trace st)"
  using assms
proof (induction links arbitrary: v st)
  case Nil
  then show ?case by simp
next
  case (Cons link links)
  have step: "crawl_inv (ctl_state (explore_step e x q link v st))
     \<and> links_requests (trace (ctl_state (explore_step e x q link v st))) = links_requests (trace st)"
    using explore_step_inv [OF Cons.prems] .
  show ?case
  proof (cases "explore_step e x q link v st")
    case (Continue v' st')
    then have "crawl_inv st'" "links_requests (trace st') = links_requests (trace st)"
      using step by simp_all
    then show ?thesis using Cons.IH [of st' v'] Continue by simp
  next
    case (Leave r st')
    then show ?thesis using step by simp
  qed
qed

subsection \<open>The fast path and an unreachable start page\<close>

lemma score_empty_content: "semantic_match_score [] q = 0"
  by (simp add: semantic_match_score_def)

lemma fast_path_return:
  assumes ex: "extract_single_page e url x (st\<lparr>visited_urls := {}, pdf_links := []\<rparr>) = (main, st1)"
    and good: "semantic_match_score main (search_query_of kws) \<ge> 60"
  shows "extract_site_content e url max_pages deep x kws st =
     (format_result st1 main url (semantic_match_score main (search_query_of kws)), st1)"
proof -
  have "main \<noteq> []" using good score_empty_content [of "search_query_of kws"] by auto
  then show ?thesis
    unfolding extract_site_content_def Let_def using ex good by simp
qed



subsection \<open>The exploration loop\<close>

lemma explore_step_continue_below:
  assumes "explore_step e x q link v st = Continue v' st'" and "best_score v < 70"
  shows "best_score v' < 70"
proof -
  obtain page_url title_score where link: "link = (page_url, title_score)" by (cases link)
  obtain c s where ex: "extract_single_page e page_url x st = (c, s)"
    by (cases "extract_single_page e page_url x st")
  show ?thesis
    using assms ex by (auto simp: link explore_step_def Let_def split: if_splits)
qed

lemma explore_through_below:
  assumes "explore_through e x q pre v0 st0 = Some (v, st)" and "best_score v0 < 70"
  shows "best_score v < 70"
  using assms
proof (induction pre arbitrary: v0 st0)
  case Nil
  then show ?case by simp
next
  case (Cons link pre)
  show ?case
  proof (cases "explore_step e x q link v0 st0")
    case (Continue v' st')
    have "best_score v' < 70" using explore_step_continue_below [OF Continue Cons.prems(2)] .
    moreover have "explore_through e x q pre v' st' = Some (v, st)"
      using Cons.prems(1) Continue by simp
    ultimately show ?thesis using Cons.IH by blast
  next
    case (Leave r st')
    then show ?thesis using Cons.prems(1) by simp
  qed
qed

lemma explore_after_prefix:
  assumes "explore_through e x q pre v0 st0 = Some (v, st)"
  shows "explore e x q (pre @ rest) v0 st0 = explore e x q rest v st"
  using assms
proof (induction pre arbitrary: v0 st0)
  case Nil
  then show ?case by simp
next
  case (Cons link pre)
  then show ?case by (cases "explore_step e x q link v0 st0") simp_all
qed

lemma explore_step_good_enough:
  assumes fresh: "page_url \<notin> visited_urls st"
    and page: "extract_single_page e page_url x st = (page_content, st')"
    and nonempty: "page_content \<noteq> []"
    and good: "(title_score + semantic_match_score page_content q) div 2 \<ge> 70"
    and below: "best_score v < 70"
  shows "explore_step e x q (page_url, title_score) v st =
     Leave (format_result st' page_content page_url
              ((title_score + semantic_match_score page_content q) div 2)) st'"
  using assms unfolding explore_step_def Let_def by simp

subsection \<open>Counting occurrences\<close>

lemma no_self_overlap:
  assumes "w \<noteq> []" and "hd w \<notin> set (tl w)" and "prefix w (c # s)" and "i < length w - 1"
  shows "\<not> prefix w (drop i s)"
proof
  assume p: "prefix w (drop i s)"
  obtain a w' where w: "w = a # w'" using assms(1) by (cases w) auto
  obtain t where t: "c # s = w @ t" using assms(3) by (auto simp: prefix_def)
  then have s: "s = w' @ t" using w by simp
  have i: "i < length w'" using assms(4) w by simp
  then have "drop i s = (w' ! i) # drop (Suc i) w' @ t"
    using s by (simp add: Cons_nth_drop_Suc)
  then have "a = w' ! i" using p w by simp
  then have "a \<in> set w'" using i by simp
  then show False using assms(2) w by simp
qed

lemma count_from_occurrences:
  assumes "w \<noteq> []" and "hd w \<notin> set (tl w)"
  shows "(\<forall>i<k. \<not> prefix w (drop i s)) \<Longrightarrow> count_from k w s = occurrences w s"
proof (induction s arbitrary: k)
  case Nil
  then show ?case using assms(1) by simp
next
  case (Cons c s)
  show ?case
  proof (cases "k = 0")
    case True
    show ?thesis
    proof (cases "prefix w (c # s)")
      case p: True
      have "\<forall>i<length w - 1. \<not> prefix w (drop i s)"
        using no_self_overlap [OF assms p] by blast
      then have "count_from (length w - 1) w s = occurrences w s" using Cons.IH by blast
      then show ?thesis using True p by simp
    next
      case False
      have "count_from 0 w s = occurrences w s" using Cons.IH [of 0] by simp
      then show ?thesis using True False by simp
    qed
  next
    case False
    then have np: "\<not> prefix w (c # s)" using Cons.prems by force
    have "\<forall>i<k - 1. \<not> prefix w (drop i s)"
    proof (intro allI impI)
      fix i assume "i < k - 1"
      then have "Suc i < k" by simp
      then have "\<not> prefix w (drop (Suc i) (c # s))" using Cons.prems by blast
      then show "\<not> prefix w (drop i s)" by simp
    qed
    then have "count_from (k - 1) w s = occurrences w s" using Cons.IH by blast
    then show ?thesis using False np by simp
  qed
qed

lemma count_str_occurrences:
  assumes "w \<noteq> []" and "hd w \<notin> set (tl w)"
  shows "count_str s w = occurrences w s"
  using count_from_occurrences [OF assms, of 0 s] assms(1) by (simp add: count_str_def)

lemma stage_mitacs_words:
  "score_query_words (lower (lit ''stage mitacs'')) = [lit ''stage'', lit ''mitacs'']"
  by (simp add: score_query_words_def lower_def lit_def lower_cp_def split_ws_def strip_def is_space_def)

lemma scenario_score:
  assumes len: "length content = 600"
    and mitacs: "occurrences (lit ''mitacs'') (lower content) = 5"
    and stage: "occurrences (lit ''stage'') (lower content) = 2"
  shows "semantic_match_score content (lit ''stage mitacs'') = 81"
proof -
  have ne: "content \<noteq> []" using len by auto
  have q: "lit ''stage mitacs'' \<noteq> []" by (simp add: lit_def)
  have c1: "count_str (lower content) (lit ''stage'') = 2"
    using count_str_occurrences [of "lit ''stage''" "lower content"] stage by (simp add: lit_def)
  have c2: "count_str (lower content) (lit ''mitacs'') = 5"
    using count_str_occurrences [of "lit ''mitacs''" "lower content"] mitacs by (simp add: lit_def)
  have f: "fold (keyword_step (lower content)) [lit ''stage'', lit ''mitacs''] (0, 0) = (41, 2)"
    by (simp add: keyword_step_def c1 c2)
  show ?thesis
    unfolding semantic_match_score_def Let_def stage_mitacs_words
    using ne q len f by simp
qed

lemma prefix_before_padding:
  assumes "c \<notin> set w"
  shows "prefix w (xs @ replicate n c) \<longleftrightarrow> prefix w xs"
proof
  assume "prefix w (xs @ replicate n c)"
  then have "prefix w xs \<or> (\<exists>us. w = xs @ us \<and> prefix us (replicate n c))"
    by (simp add: prefix_append)
  then show "prefix w xs"
  proof (elim disjE exE conjE)
    assume "prefix w xs"
    then show ?thesis .
  next
    fix us assume w: "w = xs @ us" and us: "prefix us (replicate n c)"
    show ?thesis
    proof (cases "us = []")
      case True
      then show ?thesis using w by simp
    next
      case False
      have "set us \<subseteq> set (replicate n c)" using us set_mono_prefix by blast
      then have "set us \<subseteq> {c}" by auto
      then have "c \<in> set us" using False by (cases us) auto
      then show ?thesis using assms w by simp
    qed
  qed
next
  assume "prefix w xs"
  then show "prefix w (xs @ replicate n c)" by (simp add: prefix_prefix)
qed

lemma occurrences_padding_only:
  assumes "w \<noteq> []" and "c \<notin> set w"
  shows "occurrences w (replicate n c) = 0"
proof (induction n)
  case 0
  then show ?case using assms(1) by simp
next
  case (Suc n)
  have "\<not> prefix w (c # replicate n c)"
    using prefix_before_padding [OF assms(2), of "[]" "Suc n"] assms(1) by simp
  then show ?case using Suc by simp
qed

lemma occurrences_padded:
  assumes "w \<noteq> []" and "c \<notin> set w"
  shows "occurrences w (xs @ replicate n c) = occurrences w xs"
proof (induction xs)
  case Nil
  then show ?case using occurrences_padding_only [OF assms] assms(1) by simp
next
  case (Cons a xs)
  have "prefix w ((a # xs) @ replicate n c) \<longleftrightarrow> prefix w (a # xs)"
    using prefix_before_padding [OF assms(2)] .
  then show ?case using Cons by simp
qed

lemma demo_text_length: "length demo_text = 600"
  by (simp add: demo_text_def lit_def)

lemma demo_text_lower:
  "lower demo_text = lit ''mitacs mitacs mitacs mitacs mitacs stage stage '' @ replicate 553 120"
  by (simp add: demo_text_def lower_def lower_cp_def lit_def)

lemma demo_text_mitacs: "occurrences (lit ''mitacs'') (lower demo_text) = 5"
proof -
  have "occurrences (lit ''mitacs'') (lower demo_text)
      = occurrences (lit ''mitacs'') (lit ''mitacs mitacs mitacs mitacs mitacs stage stage '')"
    unfolding demo_text_lower by (rule occurrences_padded) (simp_all add: lit_def)
  also have "\<dots> = 5" by (simp add: lit_def)
  finally show ?thesis .
qed

lemma demo_text_stage: "occurrences (lit ''stage'') (lower demo_text) = 2"
proof -
  have "occurrences (lit ''stage'') (lower demo_text)
      = occurrences (lit ''stage'') (lit ''mitacs mitacs mitacs mitacs mitacs stage stage '')"
    unfolding demo_text_lower by (rule occurrences_padded) (simp_all add: lit_def)
  also have "\<dots> = 2" by (simp add: lit_def)
  finally show ?thesis .
qed

subsection \<open>The example site, evaluated\<close>

lemma urls_distinct:
  "home_url \<noteq> stage_url" "home_url \<noteq> list_url" "stage_url \<noteq> list_url"
  "list_url \<noteq> home_url" "list_url \<noteq> stage_url" "stage_url \<noteq> home_url"
  "list_url \<noteq> plan_url" "list_url \<noteq> broken_url"
  by (simp_all add: home_url_def stage_url_def list_url_def plan_url_def broken_url_def lit_def)

lemma stage_query_string: "search_query_of stage_query = lit ''stage mitacs''"
  by (simp add: search_query_of_def stage_query_def lit_def)

lemma demo_text_score: "semantic_match_score demo_text (lit ''stage mitacs'') = 81"
  using scenario_score [OF demo_text_length demo_text_mitacs demo_text_stage] .

lemma home_text_score: "semantic_match_score (lit ''Bienvenue'') (lit ''stage mitacs'') = 0"
proof -
  have f: "fold (keyword_step (lower (lit ''Bienvenue''))) [lit ''stage'', lit ''mitacs''] (0, 0) = (0, 0)"
    by (simp add: keyword_step_def count_str_def lower_def lower_cp_def lit_def)
  show ?thesis
    unfolding semantic_match_score_def Let_def stage_mitacs_words f
    by (simp add: lit_def)
qed

lemma home_page:
  "extract_single_page example_env home_url False (fresh_state\<lparr>visited_urls := {}, pdf_links := []\<rparr>)
   = (lit ''Bienvenue'',
      \<lparr>visited_urls = {home_url}, pdf_links = [], tmp_files = {}, tmp_counter = 0,
       trace = [Page_get home_url]\<rparr>)"
proof -
  have ct: "\<not> contains (lower (lit ''text/html; charset=utf-8'')) (lit ''pdf'')"
    by (simp add: lower_def lower_cp_def lit_def)
  have sf: "\<not> suffix (lit ''.pdf'') (lower home_url)"
    by (simp add: home_url_def lower_def lower_cp_def lit_def suffix_def)
  show ?thesis
    by (simp add: extract_single_page_def example_env_def example_site_def html_response_def
        fresh_state_def log_event_def html_page_def ct sf)
qed

lemma home_links:
  "get_scored_internal_links example_env home_url (lit ''stage mitacs'') st
   = ([(list_url, 120), (stage_url, 110)], log_event (Links_get home_url) st)"
proof -
  have w: "link_query_words (lit ''stage mitacs'') = [lit ''stage'', lit ''mitacs'']"
    by (simp add: link_query_words_def lower_def lit_def lower_cp_def split_ws_def is_space_def)
  have a1: "anchor_step example_env home_url [lit ''stage'', lit ''mitacs'']
              (lit ''/stage-mitacs'', lit ''Stage Mitacs'') ([], {})
            = ([(stage_url, 110)], {stage_url})"
    by (simp add: anchor_step_def example_env_def home_url_def stage_url_def strip_def is_space_def
        before_char_def excluded_terms_def lower_def lower_cp_def link_score_def url_path_of_def
        after_last_def word_points_def important_points_def important_words_def lit_def Let_def)
  have a2: "anchor_step example_env home_url [lit ''stage'', lit ''mitacs'']
              (lit ''/stage-mitacs-list'', lit ''Stage Mitacs list'') ([(stage_url, 110)], {stage_url})
            = ([(stage_url, 110), (list_url, 120)], {list_url, stage_url})"
    by (simp add: anchor_step_def example_env_def home_url_def stage_url_def list_url_def strip_def
        is_space_def before_char_def excluded_terms_def lower_def lower_cp_def link_score_def
        url_path_of_def after_last_def word_points_def important_points_def important_words_def
        lit_def Let_def)
  have a3: "anchor_step example_env home_url [lit ''stage'', lit ''mitacs'']
              (lit ''/contact'', lit ''Contact'') ([(stage_url, 110), (list_url, 120)], {list_url, stage_url})
            = ([(stage_url, 110), (list_url, 120)], {lit ''http://h/contact'', list_url, stage_url})"
    by (simp add: anchor_step_def example_env_def home_url_def stage_url_def list_url_def strip_def
        is_space_def before_char_def excluded_terms_def lower_def lower_cp_def lit_def Let_def)
  have srt: "sort_by_score [(stage_url, 110), (list_url, 120)] = [(list_url, 120), (stage_url, 110)]"
    by (simp add: sort_by_score_def)
  have g: "http_get example_env home_url =
      Some (html_response (lit ''Bienvenue'')
              [(lit ''/stage-mitacs'', lit ''Stage Mitacs''),
               (lit ''/stage-mitacs-list'', lit ''Stage Mitacs list''),
               (lit ''/contact'', lit ''Contact'')])"
    by (simp add: example_env_def example_site_def)
  show ?thesis
    by (simp add: get_scored_internal_links_def g html_response_def w a1 a2 a3 srt Let_def)
qed

lemma crawl_step1:
  "extract_single_page example_env home_url False (fresh_state\<lparr>visited_urls := {}, pdf_links := []\<rparr>)
   = (lit ''Bienvenue'', crawl_state1)"
  using home_page by (simp add: crawl_state1_def)

lemma crawl_step1_slow:
  "lit ''Bienvenue'' = [] \<or> semantic_match_score (lit ''Bienvenue'') (search_query_of stage_query) < 60"
  by (simp add: stage_query_string home_text_score)

lemma crawl_step2:
  "get_scored_internal_links example_env home_url (search_query_of stage_query) crawl_state1
   = ([(list_url, 120), (stage_url, 110)], crawl_state2)"
  by (simp add: stage_query_string home_links crawl_state1_def crawl_state2_def log_event_def)

lemma crawl_slice:
  "slice_to 10 [(list_url, 120), (stage_url, 110 :: int)] = [(list_url, 120)] @ (stage_url, 110) # []"
  by (simp add: slice_to_def)

lemma list_page_unreachable:
  "extract_single_page example_env list_url False crawl_state2 = ([], crawl_state3)"
  by (simp add: extract_single_page_def example_env_def example_site_def urls_distinct
      crawl_state2_def crawl_state3_def log_event_def)

lemma crawl_step3:
  "explore_through example_env False (search_query_of stage_query) [(list_url, 120)]
     (start_vars (lit ''Bienvenue'') (search_query_of stage_query) home_url) crawl_state2
   = Some ((start_vars (lit ''Bienvenue'') (search_query_of stage_query) home_url)\<lparr>pages_explored := 2\<rparr>,
           crawl_state3)"
proof -
  have nv: "list_url \<notin> visited_urls crawl_state2"
    by (simp add: crawl_state2_def urls_distinct)
  show ?thesis
    by (simp add: explore_step_def nv list_page_unreachable start_vars_def)
qed

lemma crawl_step4_fresh: "stage_url \<notin> visited_urls crawl_state3"
  using urls_distinct by (simp add: crawl_state3_def)

lemma crawl_step4:
  "extract_single_page example_env stage_url False crawl_state3 = (demo_text, crawl_state4)"
proof -
  have ct: "\<not> contains (lower (lit ''text/html; charset=utf-8'')) (lit ''pdf'')"
    by (simp add: lower_def lower_cp_def lit_def)
  have sf: "\<not> suffix (lit ''.pdf'') (lower stage_url)"
    by (simp add: stage_url_def lower_def lower_cp_def lit_def suffix_def)
  have g: "http_get example_env stage_url = Some (html_response demo_text [])"
    by (simp add: example_env_def example_site_def urls_distinct)
  show ?thesis
    by (simp add: extract_single_page_def g html_response_def html_page_def ct sf urls_distinct
        crawl_state3_def crawl_state4_def log_event_def)
qed

lemma demo_text_nonempty: "demo_text \<noteq> []"
  using demo_text_length by auto

lemma crawl_step4_good:
  "(110 + semantic_match_score demo_text (search_query_of stage_query)) div 2 \<ge> 70"
  by (simp add: stage_query_string demo_text_score)

lemma home_text_score_query:
  "semantic_match_score (lit ''Bienvenue'') (search_query_of stage_query) = 0"
  by (simp add: stage_query_string home_text_score)

lemma demo_text_score_query:
  "semantic_match_score demo_text (search_query_of stage_query) = 81"
  by (simp add: stage_query_string demo_text_score)

lemma example_crawl:
  "extract_site_content example_env home_url 10 True False stage_query fresh_state =
     (format_result crawl_state4 demo_text stage_url 95, crawl_state4)"
proof -
  have nv: "list_url \<notin> visited_urls crawl_state2"
    by (simp add: crawl_state2_def urls_distinct)
  have nonempty: "lit ''Bienvenue'' \<noteq> []"
    by (simp add: lit_def)
  show ?thesis
    by (simp add: extract_site_content_def crawl_step1 home_text_score_query crawl_step2
        slice_to_def explore_step_def nv list_page_unreachable crawl_step4_fresh crawl_step4
        demo_text_nonempty demo_text_score_query start_vars_def nonempty)
qed

lemma show_nat_digit: "n < 10 \<Longrightarrow> show_nat n = [48 + n]"
  by (simp add: show_nat.simps)

lemma dropWhile_replicate: "dropWhile P (replicate n c) = (if P c then [] else replicate n c)"
  by (induction n) simp_all

lemma strip_plain: "\<not> is_space c \<Longrightarrow> strip (replicate n c) = replicate n c"
  by (simp add: strip_def dropWhile_replicate)

lemma page_header_length: "n < 10 \<Longrightarrow> length (page_header n) = 131"
  by (simp add: page_header_def bar_def nl_def lit_def show_nat_digit)

lemma empty_page_length: "n < 10 \<Longrightarrow> length (empty_page n) = 155"
  by (simp add: empty_page_def page_header_length nl_def lit_def)

lemma three_pages_strategy1: "extract_pdf_strategy1 three_pages = Some plan_pages"
proof -
  have ns: "\<not> is_space 97" by (simp add: is_space_def)
  have e: "enumerate 1 [a, b, c] = [(1, a), (2, b), (3, c)]" for a b c :: s1_page
    by simp
  show ?thesis
    unfolding extract_pdf_strategy1_def three_pages_def plan_pages_def
    by (simp only: pdf_doc.simps option.case e list.map prod.case s1_format_page_def s1_page.case
        strip_plain [OF ns] length_replicate) simp
qed

lemma plan_pages_total: "total_chars plan_pages = 549"
proof -
  have "length (page_header 1) = 131" "length (page_header 2) = 131" "length (empty_page 3) = 155"
    by (simp_all add: page_header_length empty_page_length)
  then show ?thesis
    unfolding total_chars_def plan_pages_def by (simp add: nl_def)
qed

lemma plan_pages_long: "\<not> (plan_pages = [] \<or> list_all (\<lambda>p. length (strip p) < 20) plan_pages)"
proof -
  have "length (strip (page_header 1 @ replicate 50 97 @ nl)) \<ge> 20"
    by (simp add: strip_def page_header_def bar_def is_space_def nl_def)
  then show ?thesis by (simp add: plan_pages_def)
qed

lemma three_pages_run:
  "run_strategies three_pages t st = (Some plan_pages, log_event (Strategy1 t) st)"
  by (simp add: run_strategies_def three_pages_strategy1 plan_pages_total)

lemma contains_in_suffix: "contains s w \<Longrightarrow> contains (t @ s) w"
  by (induction t) simp_all

lemma link_score_split:
  "link_score (ws1 @ word # ws2) link_text url_lower =
     word_points (link_text @ [32] @ url_path_of url_lower) (url_path_of url_lower) word
     + link_score (ws1 @ ws2) link_text url_lower"
  by (simp add: link_score_def Let_def)

lemma stage_url_segment: "contains (url_path_of (lower stage_url)) (lit ''stage'')"
  by (simp add: url_path_of_def after_last_def stage_url_def lower_def lower_cp_def lit_def)

lemma fresh_trace: "trace fresh_state = []"
  by (simp add: fresh_state_def)

lemma direct_page:
  "extract_single_page example_env stage_url False (fresh_state\<lparr>visited_urls := {}, pdf_links := []\<rparr>)
   = (demo_text, direct_state)"
proof -
  have ct: "\<not> contains (lower (lit ''text/html; charset=utf-8'')) (lit ''pdf'')"
    by (simp add: lower_def lower_cp_def lit_def)
  have sf: "\<not> suffix (lit ''.pdf'') (lower stage_url)"
    by (simp add: stage_url_def lower_def lower_cp_def lit_def suffix_def)
  have g: "http_get example_env stage_url = Some (html_response demo_text [])"
    by (simp add: example_env_def example_site_def urls_distinct)
  show ?thesis
    by (simp add: extract_single_page_def g html_response_def html_page_def ct sf
        fresh_state_def direct_state_def log_event_def)
qed

lemma direct_page_good: "semantic_match_score demo_text (search_query_of stage_query) \<ge> 60"
  by (simp add: stage_query_string demo_text_score)


section \<open>Properties of the specification\<close>

text \<open>
  C1. For every content string and every query string the semantic match score is an
  integer between 0 and 100: never negative, never above 100, the empty-content and
  empty-query cases included.
\<close>

theorem semantic_match_score_range:
  "0 \<le> semantic_match_score content query \<and> semantic_match_score content query \<le> 100"
proof (cases "content = [] \<or> query = []")
  case True
  then show ?thesis by (simp add: semantic_match_score_def)
next
  case False
  define qw where "qw = score_query_words (lower query)"
  show ?thesis
  proof (cases "qw = []")
    case True
    then show ?thesis using False by (simp add: semantic_match_score_def qw_def)
  next
    case ne: False
    obtain s m where sm: "fold (keyword_step (lower content)) qw (0, 0) = (s, m)"
      by (cases "fold (keyword_step (lower content)) qw (0, 0)")
    have pos: "0 \<le> s" "0 \<le> m"
      using keyword_fold_nonneg [of "(0, 0)" "lower content" qw] sm by simp_all
    define b where "b = \<lfloor>(of_int m :: rat) / of_nat (length qw) * 30\<rfloor>"
    have "(0::rat) \<le> of_int m / of_nat (length qw) * 30" using pos by simp
    then have b: "0 \<le> b" unfolding b_def by simp
    have eq: "semantic_match_score content query =
        min (if length content \<ge> 500 then s + b + 10
             else if length content \<ge> 200 then s + b + 5 else s + b) 100"
      using False ne sm by (simp add: semantic_match_score_def qw_def [symmetric] b_def Let_def)
    show ?thesis unfolding eq using pos b by simp
  qed
qed

theorem semantic_match_score_range_witness:
  "0 \<le> semantic_match_score demo_text (lit ''stage mitacs'')
   \<and> semantic_match_score demo_text (lit ''stage mitacs'') \<le> 100"
  by (rule semantic_match_score_range)

text \<open>
  C2, as amended. The specification says that within one call of \<open>extract_site_content\<close> no URL
  is requested twice. That fails: link discovery requests the start URL again, without
  looking at the visited set (the counterexample below). What holds: within one call
  \<open>_extract_single_page\<close> requests each URL at most once, its look at the visited set
  coming before its request, and link discovery makes at most one request, to the start
  URL.
\<close>

theorem page_fetched_at_most_once:
  assumes "trace st = []"
  shows "distinct (page_requests (trace (snd (extract_site_content e url max_pages deep x kws st))))
     \<and> (links_requests (trace (snd (extract_site_content e url max_pages deep x kws st))) = []
        \<or> links_requests (trace (snd (extract_site_content e url max_pages deep x kws st))) = [url])"
proof -
  define st0 where "st0 = st\<lparr>visited_urls := {}, pdf_links := []\<rparr>"
  define q where "q = search_query_of kws"
  obtain main st1 where ex: "extract_single_page e url x st0 = (main, st1)"
    by (cases "extract_single_page e url x st0")
  obtain links st2 where gl: "get_scored_internal_links e url q st1 = (links, st2)"
    by (cases "get_scored_internal_links e url q st1")
  have inv0: "crawl_inv st0" using assms by (simp add: crawl_inv_def st0_def)
  have l0: "links_requests (trace st0) = []" using assms by (simp add: st0_def)
  have inv1: "crawl_inv st1" and l1: "links_requests (trace st1) = []"
    using extract_single_page_inv [OF inv0, of e url x] ex l0 by simp_all
  have st2: "st2 = log_event (Links_get url) st1"
    using get_scored_internal_links_state [of e url q st1] gl by simp
  have inv2: "crawl_inv st2" and l2: "links_requests (trace st2) = [url]"
    using inv1 l1 by (simp_all add: st2 crawl_inv_def log_event_def page_requests_append links_requests_append)
  have inv3: "crawl_inv (snd (explore e x q ls v st2))"
    and l3: "links_requests (trace (snd (explore e x q ls v st2))) = [url]" for ls v
    using explore_inv [OF inv2, of e x q ls v] l2 by simp_all
  have "crawl_inv (snd (extract_site_content e url max_pages deep x kws st))
     \<and> (links_requests (trace (snd (extract_site_content e url max_pages deep x kws st))) = []
        \<or> links_requests (trace (snd (extract_site_content e url max_pages deep x kws st))) = [url])"
    unfolding extract_site_content_def Let_def st0_def [symmetric] q_def [symmetric]
    using ex gl inv1 l1 inv2 l2 inv3 l3 by simp
  then show ?thesis by (simp add: crawl_inv_def)
qed

theorem page_fetched_at_most_once_witness:
  "distinct (page_requests (trace (snd
      (extract_site_content example_env home_url 10 True False stage_query fresh_state))))
   \<and> (links_requests (trace (snd
          (extract_site_content example_env home_url 10 True False stage_query fresh_state))) = []
      \<or> links_requests (trace (snd
          (extract_site_content example_env home_url 10 True False stage_query fresh_state))) = [home_url])"
  by (rule page_fetched_at_most_once [OF fresh_trace])

theorem link_discovery_requests_start_url_again:
  "\<not> distinct (requested_urls (trace (snd
      (extract_site_content example_env home_url 10 True False stage_query fresh_state))))"
  by (simp add: example_crawl crawl_state4_def)

text \<open>
  C3. When the content of the start page scores 60 or more against the query,
  \<open>extract_site_content\<close> returns the formatted start page at once: the state it ends in
  is the state right after the start page was extracted, and no request of link
  discovery was made.
\<close>

theorem fast_path_skips_link_scoring:
  assumes ex: "extract_single_page e url x (st\<lparr>visited_urls := {}, pdf_links := []\<rparr>) = (main, st1)"
    and good: "semantic_match_score main (search_query_of kws) \<ge> 60"
  shows "extract_site_content e url max_pages deep x kws st =
           (format_result st1 main url (semantic_match_score main (search_query_of kws)), st1)
         \<and> links_requests (trace st1) = links_requests (trace st)"
proof -
  have "url \<notin> visited_urls (st\<lparr>visited_urls := {}, pdf_links := []\<rparr>)" by simp
  from extract_single_page_new [OF this, of e x] ex
  have "links_requests (trace st1) = links_requests (trace st)" by simp
  then show ?thesis using fast_path_return [OF ex good] by simp
qed

theorem fast_path_skips_link_scoring_witness:
  "extract_site_content example_env stage_url 10 True False stage_query fresh_state =
     (format_result direct_state demo_text stage_url
        (semantic_match_score demo_text (search_query_of stage_query)), direct_state)
   \<and> links_requests (trace direct_state) = links_requests (trace fresh_state)"
  by (rule fast_path_skips_link_scoring [OF direct_page direct_page_good])

text \<open>
  C4. In the exploration of a deep crawl, when the loop reaches a link (having gone
  through the links before it without leaving), the link is not visited yet, its page
  has content, and the combined score \<open>(title_score + content_score) div 2\<close> is 70 or
  more, the call returns the formatted content and URL of that page with that score, and
  ends in the state right after that page was extracted: no link behind it is requested.
\<close>

theorem stops_at_first_good_enough_page:
  assumes start: "extract_single_page e url x (st\<lparr>visited_urls := {}, pdf_links := []\<rparr>) = (main, st1)"
    and slow: "main = [] \<or> semantic_match_score main (search_query_of kws) < 60"
    and links: "get_scored_internal_links e url (search_query_of kws) st1 = (links, st2)"
    and split: "slice_to max_pages links = pre @ (page_url, title_score) # post"
    and through: "explore_through e x (search_query_of kws) pre
                    (start_vars main (search_query_of kws) url) st2 = Some (v, st3)"
    and fresh: "page_url \<notin> visited_urls st3"
    and page: "extract_single_page e page_url x st3 = (page_content, st4)"
    and nonempty: "page_content \<noteq> []"
    and good: "(title_score + semantic_match_score page_content (search_query_of kws)) div 2 \<ge> 70"
  shows "extract_site_content e url max_pages True x kws st =
     (format_result st4 page_content page_url
        ((title_score + semantic_match_score page_content (search_query_of kws)) div 2), st4)"
proof -
  let ?q = "search_query_of kws"
  have ne: "links \<noteq> []" using split by (auto simp: slice_to_def split: if_splits)
  have "best_score (start_vars main ?q url) < 70" using slow by (auto simp: start_vars_def)
  then have below: "best_score v < 70" using explore_through_below [OF through] by simp
  have "explore e x ?q (slice_to max_pages links) (start_vars main ?q url) st2 =
        explore e x ?q ((page_url, title_score) # post) v st3"
    unfolding split using explore_after_prefix [OF through] .
  also have "\<dots> = (format_result st4 page_content page_url
        ((title_score + semantic_match_score page_content ?q) div 2), st4)"
    using explore_step_good_enough [OF fresh page nonempty good below] by simp
  finally have run: "explore e x ?q (slice_to max_pages links) (start_vars main ?q url) st2 =
     (format_result st4 page_content page_url
        ((title_score + semantic_match_score page_content ?q) div 2), st4)" .
  show ?thesis
    unfolding extract_site_content_def Let_def
    using start slow links ne run by auto
qed

theorem stops_at_first_good_enough_page_witness:
  "extract_site_content example_env home_url 10 True False stage_query fresh_state =
     (format_result crawl_state4 demo_text stage_url
        ((110 + semantic_match_score demo_text (search_query_of stage_query)) div 2), crawl_state4)"
  by (rule stops_at_first_good_enough_page [OF crawl_step1 crawl_step1_slow crawl_step2 crawl_slice
        crawl_step3 crawl_step4_fresh crawl_step4 demo_text_nonempty crawl_step4_good])

text \<open>
  C5. The specification asks that strategy 2 be invoked for a PDF of three pages on which
  strategy 1 extracts 50, 80 and 5 characters. The code counts the length of the page
  strings strategy 1 returns, each with its header of 131 characters (an empty page is
  a string of 155 characters): the total is 549, not below 200, and strategy 2 is not
  invoked: the temporary file is created, read by strategy 1 and removed.
\<close>

theorem three_page_pdf_skips_strategy2:
  "map_option total_chars (extract_pdf_strategy1 three_pages) = Some 549
   \<and> trace (snd (extract_pdf_from_url_advanced example_env plan_url fresh_state))
       = [Pdf_get plan_url, Tmp_create 0, Strategy1 0, Tmp_remove 0]"
proof -
  have g: "http_get example_env plan_url = Some (pdf_response three_pages)"
    by (simp add: example_env_def example_site_def home_url_def stage_url_def plan_url_def lit_def)
  have ct: "contains (lower (lit ''application/pdf'')) (lit ''pdf'')"
    by (simp add: lower_def lower_cp_def lit_def)
  have "trace (snd (extract_pdf_from_url_advanced example_env plan_url fresh_state))
       = [Pdf_get plan_url, Tmp_create 0, Strategy1 0, Tmp_remove 0]"
    using plan_pages_long
    by (simp add: extract_pdf_from_url_advanced_def g pdf_response_def ct three_pages_run
        fresh_state_def log_event_def Let_def)
  then show ?thesis by (simp add: three_pages_strategy1 plan_pages_total)
qed

text \<open>
  C6. The specification asks that the temporary file be deleted on every exit path. When strategy
  1 raises on the downloaded file, the call returns the ``extraction impossible''
  message and the temporary file is still there.
\<close>

theorem broken_pdf_leaves_temp_file:
  "extract_pdf_from_url_advanced example_env broken_url fresh_state =
     (pdf_failed_msg broken_url,
      \<lparr>visited_urls = {}, pdf_links = [], tmp_files = {0}, tmp_counter = 1,
       trace = [Pdf_get broken_url, Tmp_create 0, Strategy1 0]\<rparr>)"
proof -
  have g: "http_get example_env broken_url = Some (pdf_response broken_pdf)"
    by (simp add: example_env_def example_site_def home_url_def stage_url_def plan_url_def
        broken_url_def lit_def)
  have ct: "contains (lower (lit ''application/pdf'')) (lit ''pdf'')"
    by (simp add: lower_def lower_cp_def lit_def)
  have r: "run_strategies broken_pdf t st = (None, log_event (Strategy1 t) st)" for t st
    by (simp add: run_strategies_def extract_pdf_strategy1_def broken_pdf_def)
  show ?thesis
    by (simp add: extract_pdf_from_url_advanced_def g pdf_response_def ct r
        fresh_state_def log_event_def Let_def)
qed



text \<open>
  C8, as amended. The specification gives 50 points to a keyword that the URL path contains. The
  code looks at the final segment of the lowercased URL only (\<open>url_path\<close>, what follows
  the last slash): a keyword in an earlier segment counts nothing (the counterexample
  below). What holds: a query word that the final segment contains adds exactly 50 to the
  score of the link, 30 for the combined text and 20 for the segment, whatever the anchor
  text is, before the bonus of the important words.
\<close>

theorem final_segment_keyword_points:
  assumes "contains (url_path_of url_lower) word"
  shows "word_points (link_text @ [32] @ url_path_of url_lower) (url_path_of url_lower) word = 50
     \<and> link_score (ws1 @ word # ws2) link_text url_lower
         = 50 + link_score (ws1 @ ws2) link_text url_lower"
proof -
  have "contains ((link_text @ [32]) @ url_path_of url_lower) word"
    using contains_in_suffix [OF assms] .
  then have "word_points (link_text @ [32] @ url_path_of url_lower) (url_path_of url_lower) word = 50"
    using assms by (simp add: word_points_def)
  then show ?thesis using link_score_split [of ws1 word ws2 link_text url_lower] by simp
qed

theorem final_segment_keyword_points_witness:
  "word_points (lit ''offres'' @ [32] @ url_path_of (lower stage_url)) (url_path_of (lower stage_url))
     (lit ''stage'') = 50
   \<and> link_score ([] @ lit ''stage'' # [lit ''mitacs'']) (lit ''offres'') (lower stage_url)
       = 50 + link_score ([] @ [lit ''mitacs'']) (lit ''offres'') (lower stage_url)"
  by (rule final_segment_keyword_points [OF stage_url_segment])

theorem keyword_in_earlier_segment_scores_nothing:
  "contains (lit ''/stage/infos'') (lit ''stage'')
   \<and> \<not> contains (lit ''infos'') (lit ''stage'')
   \<and> word_points (lit ''infos'' @ [32] @ url_path_of (lit ''http://h'' @ lit ''/stage/infos''))
        (url_path_of (lit ''http://h'' @ lit ''/stage/infos'')) (lit ''stage'') = 0
   \<and> link_score [lit ''stage''] (lit ''infos'') (lit ''http://h'' @ lit ''/stage/infos'') = 0"
  by (simp add: link_score_def word_points_def url_path_of_def after_last_def important_points_def
      important_words_def lit_def)

text \<open>
  C9. For the query words ``stage'' and ``mitacs'' and a content of 600 characters in
  which, letter case ignored, ``mitacs'' occurs 5 times and ``stage'' twice, the score
  is 81; as the content of the start page it makes \<open>extract_site_content\<close> return the
  formatted start page at once.
\<close>

theorem scenario_score_81:
  assumes len: "length content = 600"
    and mitacs: "occurrences (lit ''mitacs'') (lower content) = 5"
    and stage: "occurrences (lit ''stage'') (lower content) = 2"
    and start: "extract_single_page e url x (st\<lparr>visited_urls := {}, pdf_links := []\<rparr>) = (content, st1)"
  shows "semantic_match_score content (lit ''stage mitacs'') = 81
     \<and> search_query_of (Some [lit ''stage'', lit ''mitacs'']) = lit ''stage mitacs''
     \<and> extract_site_content e url max_pages deep x (Some [lit ''stage'', lit ''mitacs'']) st
         = (format_result st1 content url 81, st1)"
proof -
  have s: "semantic_match_score content (lit ''stage mitacs'') = 81"
    using scenario_score [OF len mitacs stage] .
  have q: "search_query_of (Some [lit ''stage'', lit ''mitacs'']) = lit ''stage mitacs''"
    using stage_query_string by (simp add: stage_query_def)
  have "semantic_match_score content (search_query_of (Some [lit ''stage'', lit ''mitacs''])) \<ge> 60"
    using s q by simp
  from fast_path_return [OF start this] show ?thesis using s q by simp
qed

theorem scenario_score_81_witness:
  "semantic_match_score demo_text (lit ''stage mitacs'') = 81
   \<and> search_query_of (Some [lit ''stage'', lit ''mitacs'']) = lit ''stage mitacs''
   \<and> extract_site_content example_env stage_url 10 True False (Some [lit ''stage'', lit ''mitacs'']) fresh_state
       = (format_result direct_state demo_text stage_url 81, direct_state)"
  by (rule scenario_score_81 [OF demo_text_length demo_text_mitacs demo_text_stage direct_page])

text \<open>
  C10. The string \<open>_format_result\<close> returns does not depend on its score argument.
\<close>

theorem format_result_ignores_score:
  "format_result st content url s1 = format_result st content url s2"
  by (simp add: format_result_def)

theorem format_result_ignores_score_witness:
  "format_result crawl_state4 demo_text stage_url 95 = format_result crawl_state4 demo_text stage_url 0"
  by (rule format_result_ignores_score)

end
